theory Spec2Isabelle
  imports Complex_Main "HOL-Library.Multiset" "HOL-Library.Product_Lexorder" "HOL-Library.Sublist"
begin

section \<open>Floats\<close>

text \<open>
  The coordinates are Python floats. A float is a number, one of the two infinities, or a
  NaN. The numbers are taken as reals (rounding plays no part in what follows, and the two
  zeros compare equal). \<open>a < b\<close> and \<open>a == b\<close> on floats are false as soon as one side is a
  NaN; the coordinates of different blocks are different objects, so a NaN is never found
  equal to a NaN by identity either.
\<close>

datatype pyfloat = Float real | PosInf | NegInf | NaN

fun float_lt :: "pyfloat \<Rightarrow> pyfloat \<Rightarrow> bool" where
  "float_lt NaN b = False"
| "float_lt a NaN = False"
| "float_lt (Float a) (Float b) = (a < b)"
| "float_lt a NegInf = False"
| "float_lt NegInf b = True"
| "float_lt PosInf b = False"
| "float_lt a PosInf = True"

fun float_eq :: "pyfloat \<Rightarrow> pyfloat \<Rightarrow> bool" where
  "float_eq NaN b = False"
| "float_eq a NaN = False"
| "float_eq a b = (a = b)"

section \<open>Text blocks\<close>

text \<open>
  The class \<open>TextBlock\<close> of \<open>main.py\<close>: a bounding box, the text of the block and the
  block number given by the extractor. The text is a list of characters.
\<close>

record TextBlock =
  x0 :: pyfloat
  y0 :: pyfloat
  x1 :: pyfloat
  y1 :: pyfloat
  text' :: string
  block_no :: int

section \<open>String operations used by the grouping pass\<close>

text \<open>
  \<open>str.strip()\<close> removes leading and trailing whitespace, \<open>str.lower()\<close> maps
  \<open>A\<close>..\<open>Z\<close> to \<open>a\<close>..\<open>z\<close>, and \<open>needle in hay\<close> is the substring test. Characters
  are the ASCII ones: a character above 127 is neither whitespace nor changed by
  \<open>lower\<close> here.
\<close>

definition isspace :: "char \<Rightarrow> bool" where
  "isspace c = (let n = (of_char c :: nat) in (9 \<le> n \<and> n \<le> 13) \<or> (28 \<le> n \<and> n \<le> 32))"

definition strip :: "string \<Rightarrow> string" where
  "strip s = rev (dropWhile isspace (rev (dropWhile isspace s)))"

definition lower_char :: "char \<Rightarrow> char" where
  "lower_char c = (let n = (of_char c :: nat) in if 65 \<le> n \<and> n \<le> 90 then char_of (n + 32) else c)"

definition lower :: "string \<Rightarrow> string" where
  "lower s = map lower_char s"

fun startswith :: "string \<Rightarrow> string \<Rightarrow> bool" where
  "startswith hay [] = True"
| "startswith [] (n # ns) = False"
| "startswith (h # hs) (n # ns) = (h = n \<and> startswith hs ns)"

fun contains :: "string \<Rightarrow> string \<Rightarrow> bool" where
  "contains [] needle = (needle = [])"
| "contains (h # hs) needle = (startswith (h # hs) needle \<or> contains hs needle)"

section \<open>The sequencer: reading order\<close>

text \<open>
  \<open>blocks.sort(key=lambda blk: (blk.y0, blk.x0))\<close> sorts the blocks by comparing their
  keys with \<open><\<close> only. Two tuples compare by their first components that are not equal
  (\<open>==\<close>), and a tuple is not less than one with the same components.
\<close>

definition key :: "TextBlock \<Rightarrow> pyfloat \<times> pyfloat" where
  "key blk = (y0 blk, x0 blk)"

definition tuple_lt :: "pyfloat \<times> pyfloat \<Rightarrow> pyfloat \<times> pyfloat \<Rightarrow> bool" where
  "tuple_lt v w =
     (if \<not> float_eq (fst v) (fst w) then float_lt (fst v) (fst w)
      else if \<not> float_eq (snd v) (snd w) then float_lt (snd v) (snd w)
      else False)"

text \<open>
  \<open>list.sort\<close> is CPython's (\<open>count_run\<close> and \<open>binarysort\<close> of its \<open>listobject.c\<close>, as of
  version 3.11): it takes the run the list starts with (ascending, or
  strictly descending and then reversed) and puts each later element into the sorted
  front by a binary search for the first position whose element the new one is less
  than. This is the whole sort for a list of fewer than 64 elements; a longer list is
  sorted in pieces of this kind that are then merged, which gives the same list whenever
  \<open><\<close> orders the keys totally. With a NaN among the keys \<open><\<close> is no order, and what
  comes out is what these steps make of it.
\<close>

fun run_ascending :: "('a \<Rightarrow> 'a \<Rightarrow> bool) \<Rightarrow> 'a \<Rightarrow> 'a list \<Rightarrow> nat" where
  "run_ascending lt prev [] = 0"
| "run_ascending lt prev (x # xs) = (if lt x prev then 0 else Suc (run_ascending lt x xs))"

fun run_descending :: "('a \<Rightarrow> 'a \<Rightarrow> bool) \<Rightarrow> 'a \<Rightarrow> 'a list \<Rightarrow> nat" where
  "run_descending lt prev [] = 0"
| "run_descending lt prev (x # xs) = (if lt x prev then Suc (run_descending lt x xs) else 0)"

text \<open>The length of the run at the head of the list, and whether it descends.\<close>

fun count_run :: "('a \<Rightarrow> 'a \<Rightarrow> bool) \<Rightarrow> 'a list \<Rightarrow> nat \<times> bool" where
  "count_run lt [] = (0, False)"
| "count_run lt [x] = (1, False)"
| "count_run lt (x # y # zs) =
     (if lt y x then (2 + run_descending lt y zs, True)
      else (2 + run_ascending lt y zs, False))"

text \<open>The binary search of \<open>binarysort\<close> between the positions \<open>l\<close> and \<open>r\<close>.\<close>

function bisect :: "('a \<Rightarrow> 'a \<Rightarrow> bool) \<Rightarrow> 'a list \<Rightarrow> 'a \<Rightarrow> nat \<Rightarrow> nat \<Rightarrow> nat" where
  "bisect lt xs pivot l r =
     (if l < r then
        (let p = l + (r - l) div 2
         in if lt pivot (xs ! p) then bisect lt xs pivot l p
            else bisect lt xs pivot (p + 1) r)
      else l)"
  by pat_completeness auto
termination
  by (relation "measure (\<lambda>(lt, xs, pivot, l, r). r - l)") auto

fun binarysort :: "('a \<Rightarrow> 'a \<Rightarrow> bool) \<Rightarrow> 'a list \<Rightarrow> 'a list \<Rightarrow> 'a list" where
  "binarysort lt acc [] = acc"
| "binarysort lt acc (pivot # rest) =
     (let l = bisect lt acc pivot 0 (length acc)
      in binarysort lt (take l acc @ pivot # drop l acc) rest)"

definition list_sort :: "('a \<Rightarrow> 'a \<Rightarrow> bool) \<Rightarrow> 'a list \<Rightarrow> 'a list" where
  "list_sort lt xs =
     (if length xs < 2 then xs
      else (case count_run lt xs of
              (n, descending) \<Rightarrow>
                binarysort lt (if descending then rev (take n xs) else take n xs) (drop n xs)))"

definition sort_blocks :: "TextBlock list \<Rightarrow> TextBlock list" where
  "sort_blocks blocks = list_sort (\<lambda>a b. tuple_lt (key a) (key b)) blocks"

section \<open>The supplier: \<open>extract_text_blocks\<close>\<close>

text \<open>
  PyMuPDF is not part of the repository. A document is taken as what the code reads of
  it: \<open>len(doc)\<close> and, for a page index, the tuples of
  \<open>doc.load_page(i).get_text("blocks")\<close>. A tuple starts with the six fields the code
  names, \<open>(x0, y0, x1, y1, text, block_no)\<close>, and may go on with further fields: the
  comment in the source expects none, PyMuPDF's block tuples have one more (the block
  type). Failures inside the library (a missing file, a closed document) are outside the
  model.
\<close>

record raw_block =
  raw_x0 :: pyfloat
  raw_y0 :: pyfloat
  raw_x1 :: pyfloat
  raw_y1 :: pyfloat
  raw_text :: string
  raw_block_no :: int
  further_fields :: "int list"

record document =
  page_count :: nat
  get_text_blocks :: "int \<Rightarrow> raw_block list"

text \<open>
  Both errors are Python's \<open>ValueError\<close>: the one the function raises itself ("PDF has
  only \<open>len(doc)\<close> pages, cannot load page \<open>page_index\<close>") and the one of the
  unpacking \<open>x0, y0, x1, y1, text, block_no = b\<close> on a tuple of more than six fields
  ("too many values to unpack").
\<close>

datatype error = PageValueError nat int | UnpackValueError

definition make_block :: "raw_block \<Rightarrow> TextBlock" where
  "make_block b =
     \<lparr>x0 = raw_x0 b, y0 = raw_y0 b, x1 = raw_x1 b, y1 = raw_y1 b, text' = raw_text b,
      block_no = raw_block_no b\<rparr>"

text \<open>The loop over \<open>raw_blocks\<close>: it stops at the first tuple that does not unpack.\<close>

fun append_blocks :: "TextBlock list \<Rightarrow> raw_block list \<Rightarrow> error + TextBlock list" where
  "append_blocks blocks [] = Inr blocks"
| "append_blocks blocks (b # raw_blocks) =
     (if further_fields b \<noteq> [] then Inl UnpackValueError
      else append_blocks (blocks @ [make_block b]) raw_blocks)"

definition extract_text_blocks :: "document \<Rightarrow> int \<Rightarrow> error + TextBlock list" where
  "extract_text_blocks doc page_index =
     (if page_index \<ge> int (page_count doc)
      then Inl (PageValueError (page_count doc) page_index)
      else (case append_blocks [] (get_text_blocks doc page_index) of
              Inl e \<Rightarrow> Inl e
            | Inr blocks \<Rightarrow> Inr (sort_blocks blocks)))"

section \<open>The segmenter: \<open>group_blocks\<close>\<close>

text \<open>
  The local variables of \<open>group_blocks\<close>: the four buckets and the three flags.
\<close>

record group_state =
  group1 :: "TextBlock list"
  group2 :: "TextBlock list"
  group3 :: "TextBlock list"
  group4 :: "TextBlock list"
  in_group2 :: bool
  in_group3 :: bool
  in_group4 :: bool

definition init_state :: group_state where
  "init_state = \<lparr>group1 = [], group2 = [], group3 = [], group4 = [],
     in_group2 = False, in_group3 = False, in_group4 = False\<rparr>"

definition txt_clean :: "TextBlock \<Rightarrow> string" where
  "txt_clean blk = lower (strip (text' blk))"

text \<open>
  One iteration of the \<open>for\<close> loop. Each \<open>continue\<close> ends the iteration, so the
  tests form a chain in the order of the source.
\<close>

definition loop_body :: "group_state \<Rightarrow> TextBlock \<Rightarrow> group_state" where
  "loop_body s blk =
     (if contains (txt_clean blk) ''restricted'' then
        s\<lparr>group1 := group1 s @ [blk]\<rparr>
      else if contains (txt_clean blk) ''programme/project status report'' then
        s\<lparr>in_group2 := True, in_group3 := False, in_group4 := False,
          group2 := group2 s @ [blk]\<rparr>
      else if contains (txt_clean blk) ''description'' then
        s\<lparr>in_group2 := False, in_group3 := True, in_group4 := False,
          group3 := group3 s @ [blk]\<rparr>
      else if contains (txt_clean blk) ''report parameters'' then
        s\<lparr>in_group2 := False, in_group3 := False, in_group4 := True,
          group4 := group4 s @ [blk]\<rparr>
      else if in_group2 s then s\<lparr>group2 := group2 s @ [blk]\<rparr>
      else if in_group3 s then s\<lparr>group3 := group3 s @ [blk]\<rparr>
      else if in_group4 s then s\<lparr>group4 := group4 s @ [blk]\<rparr>
      else s)"

definition run_loop :: "group_state \<Rightarrow> TextBlock list \<Rightarrow> group_state" where
  "run_loop s blocks = foldl loop_body s blocks"

definition group_blocks :: "TextBlock list \<Rightarrow> TextBlock list list" where
  "group_blocks blocks =
     (let s = run_loop init_state blocks
      in [group1 s, group2 s, group3 s, group4 s])"

section \<open>Notions used to state the properties\<close>

text \<open>
  The three running sections: "Programme/Project Status Report" (bucket \<open>group2\<close>,
  flag \<open>in_group2\<close>), "Description" (\<open>group3\<close>, \<open>in_group3\<close>) and "Report Parameters"
  (\<open>group4\<close>, \<open>in_group4\<close>).
\<close>

datatype section_id = SectionA | SectionB | SectionC

fun bucket :: "section_id \<Rightarrow> group_state \<Rightarrow> TextBlock list" where
  "bucket SectionA s = group2 s"
| "bucket SectionB s = group3 s"
| "bucket SectionC s = group4 s"

text \<open>A block is a marker when the first test of the loop succeeds.\<close>

definition is_marker :: "TextBlock \<Rightarrow> bool" where
  "is_marker blk = contains (txt_clean blk) ''restricted''"

text \<open>
  The section a block starts, if any: the second, third and fourth test of the loop,
  each reached only when the tests before it failed.
\<close>

definition heading_of :: "TextBlock \<Rightarrow> section_id option" where
  "heading_of blk =
     (if contains (txt_clean blk) ''restricted'' then None
      else if contains (txt_clean blk) ''programme/project status report'' then Some SectionA
      else if contains (txt_clean blk) ''description'' then Some SectionB
      else if contains (txt_clean blk) ''report parameters'' then Some SectionC
      else None)"

text \<open>A follower is a block on which all four keyword tests fail.\<close>

definition is_follower :: "TextBlock \<Rightarrow> bool" where
  "is_follower blk =
     (\<not> contains (txt_clean blk) ''restricted'' \<and>
      \<not> contains (txt_clean blk) ''programme/project status report'' \<and>
      \<not> contains (txt_clean blk) ''description'' \<and>
      \<not> contains (txt_clean blk) ''report parameters'')"

text \<open>
  The section that receives followers: the flags are read in the order of the final
  \<open>if\<close>/\<open>elif\<close> chain of the loop.
\<close>

definition active_group :: "group_state \<Rightarrow> section_id option" where
  "active_group s =
     (if in_group2 s then Some SectionA
      else if in_group3 s then Some SectionB
      else if in_group4 s then Some SectionC
      else None)"

definition at_most_one_active :: "group_state \<Rightarrow> bool" where
  "at_most_one_active s =
     (\<not> (in_group2 s \<and> in_group3 s) \<and> \<not> (in_group2 s \<and> in_group4 s) \<and>
      \<not> (in_group3 s \<and> in_group4 s))"

text \<open>
  The blocks that reach the final \<open>else: pass\<close> of the loop: followers met while no
  flag is set. They are put in no bucket.
\<close>

fun dropped :: "group_state \<Rightarrow> TextBlock list \<Rightarrow> TextBlock list" where
  "dropped s [] = []"
| "dropped s (blk # blocks) =
     (if is_follower blk \<and> \<not> in_group2 s \<and> \<not> in_group3 s \<and> \<not> in_group4 s
      then blk # dropped (loop_body s blk) blocks
      else dropped (loop_body s blk) blocks)"

text \<open>
  The place of a float that is not a NaN in the order of the floats: the infinities below
  and above all numbers. (The value given to a NaN is never used.)
\<close>

fun float_rank :: "pyfloat \<Rightarrow> int \<times> real" where
  "float_rank (Float r) = (0, r)"
| "float_rank NegInf = (- 1, 0)"
| "float_rank PosInf = (1, 0)"
| "float_rank NaN = (2, 0)"

section \<open>The rules of the segmenter as the specification words them\<close>

text \<open>
  The specification describes the pass as a table of keywords in priority order, the
  first match deciding the target, and an active group that followers are appended to.
  These definitions follow the specification's words; they are compared with
  \<open>loop_body\<close> below.
\<close>

datatype target = ToMarker | ToSection section_id

definition spec_keyword_table :: "(string \<times> target) list" where
  "spec_keyword_table =
     [(''restricted'', ToMarker),
      (''programme/project status report'', ToSection SectionA),
      (''description'', ToSection SectionB),
      (''report parameters'', ToSection SectionC)]"

fun spec_first_match :: "(string \<times> target) list \<Rightarrow> string \<Rightarrow> target option" where
  "spec_first_match [] t = None"
| "spec_first_match ((k, g) # rules) t =
     (if contains t k then Some g else spec_first_match rules t)"

fun spec_append :: "section_id \<Rightarrow> TextBlock \<Rightarrow> group_state \<Rightarrow> group_state" where
  "spec_append SectionA blk s = s\<lparr>group2 := group2 s @ [blk]\<rparr>"
| "spec_append SectionB blk s = s\<lparr>group3 := group3 s @ [blk]\<rparr>"
| "spec_append SectionC blk s = s\<lparr>group4 := group4 s @ [blk]\<rparr>"

definition spec_set_active :: "section_id \<Rightarrow> group_state \<Rightarrow> group_state" where
  "spec_set_active X s =
     s\<lparr>in_group2 := (X = SectionA), in_group3 := (X = SectionB), in_group4 := (X = SectionC)\<rparr>"

definition spec_step :: "group_state \<Rightarrow> TextBlock \<Rightarrow> group_state" where
  "spec_step s blk =
     (case spec_first_match spec_keyword_table (txt_clean blk) of
        Some ToMarker \<Rightarrow> s\<lparr>group1 := group1 s @ [blk]\<rparr>
      | Some (ToSection X) \<Rightarrow> spec_append X blk (spec_set_active X s)
      | None \<Rightarrow> (case active_group s of None \<Rightarrow> s | Some X \<Rightarrow> spec_append X blk s))"

section \<open>Example blocks and documents\<close>

text \<open>
  A block with a given text and top coordinate, for the concrete runs below, and a block
  whose top is a NaN.
\<close>

definition block_at :: "string \<Rightarrow> real \<Rightarrow> TextBlock" where
  "block_at t y =
     \<lparr>x0 = Float 0, y0 = Float y, x1 = Float 1, y1 = Float (y + 1), text' = t, block_no = 0\<rparr>"

definition block_nan :: "string \<Rightarrow> TextBlock" where
  "block_nan t = \<lparr>x0 = Float 0, y0 = NaN, x1 = Float 1, y1 = NaN, text' = t, block_no = 0\<rparr>"

text \<open>
  A document of one page that holds no block, and a document of one page that holds one
  block, given with the seven fields of PyMuPDF's block tuples.
\<close>

definition one_page_document :: document where
  "one_page_document = \<lparr>page_count = 1, get_text_blocks = (\<lambda>i. [])\<rparr>"

definition one_block_document :: document where
  "one_block_document =
     \<lparr>page_count = 1,
      get_text_blocks = (\<lambda>i. [\<lparr>raw_x0 = Float 0, raw_y0 = Float 0, raw_x1 = Float 1,
        raw_y1 = Float 1, raw_text = ''RESTRICTED'', raw_block_no = 0,
        further_fields = [0]\<rparr>])\<rparr>"

section \<open>Basic facts\<close>

lemmas string_eval =
  txt_clean_def lower_def strip_def isspace_def lower_char_def char_of_def bit_Suc_0_iff

lemma startswith_iff_prefix: "startswith hay needle \<longleftrightarrow> prefix needle hay"
  by (induction hay needle rule: startswith.induct) auto

lemma contains_iff_sublist: "contains hay needle \<longleftrightarrow> sublist needle hay"
  by (induction hay) (simp_all add: startswith_iff_prefix sublist_Cons_right)

lemma loop_body_marker:
  "is_marker blk \<Longrightarrow> loop_body s blk = s\<lparr>group1 := group1 s @ [blk]\<rparr>"
  by (simp add: is_marker_def loop_body_def)

lemma loop_body_heading:
  "heading_of blk = Some X \<Longrightarrow>
   loop_body s blk =
     (case X of
        SectionA \<Rightarrow> s\<lparr>in_group2 := True, in_group3 := False, in_group4 := False,
                      group2 := group2 s @ [blk]\<rparr>
      | SectionB \<Rightarrow> s\<lparr>in_group2 := False, in_group3 := True, in_group4 := False,
                      group3 := group3 s @ [blk]\<rparr>
      | SectionC \<Rightarrow> s\<lparr>in_group2 := False, in_group3 := False, in_group4 := True,
                      group4 := group4 s @ [blk]\<rparr>)"
  by (auto simp add: heading_of_def loop_body_def split: if_splits)

lemma loop_body_follower:
  "is_follower blk \<Longrightarrow>
   loop_body s blk =
     (if in_group2 s then s\<lparr>group2 := group2 s @ [blk]\<rparr>
      else if in_group3 s then s\<lparr>group3 := group3 s @ [blk]\<rparr>
      else if in_group4 s then s\<lparr>group4 := group4 s @ [blk]\<rparr>
      else s)"
  by (simp add: is_follower_def loop_body_def)

lemma block_cases:
  "is_marker blk \<or> (\<exists>X. heading_of blk = Some X) \<or> is_follower blk"
  by (simp add: is_marker_def heading_of_def is_follower_def)

lemma run_loop_Nil: "run_loop s [] = s"
  by (simp add: run_loop_def)

lemma run_loop_Cons: "run_loop s (blk # blocks) = run_loop (loop_body s blk) blocks"
  by (simp add: run_loop_def)

lemma run_loop_append: "run_loop s (xs @ ys) = run_loop (run_loop s xs) ys"
  by (simp add: run_loop_def)

lemma loop_body_partition:
  "mset (group1 (loop_body s blk)) + mset (group2 (loop_body s blk)) +
   mset (group3 (loop_body s blk)) + mset (group4 (loop_body s blk)) +
   mset (dropped s [blk]) =
   mset (group1 s) + mset (group2 s) + mset (group3 s) + mset (group4 s) + {#blk#}"
  using block_cases [of blk]
  apply (elim disjE exE)
  subgoal by (simp add: loop_body_marker is_marker_def is_follower_def)
  subgoal for X by (cases X) (auto simp add: loop_body_heading heading_of_def is_follower_def split: if_splits)
  subgoal by (simp add: loop_body_follower)
  done

lemma run_loop_partition:
  "mset (group1 (run_loop s blocks)) + mset (group2 (run_loop s blocks)) +
   mset (group3 (run_loop s blocks)) + mset (group4 (run_loop s blocks)) +
   mset (dropped s blocks) =
   mset (group1 s) + mset (group2 s) + mset (group3 s) + mset (group4 s) + mset blocks"
proof (induction blocks arbitrary: s)
  case Nil
  show ?case by (simp add: run_loop_Nil)
next
  case (Cons blk blocks)
  define t where "t = loop_body s blk"
  define D where "D = mset (dropped s [blk])"
  define E where "E = mset (dropped t blocks)"
  have d: "mset (dropped s (blk # blocks)) = D + E"
    by (simp add: D_def E_def t_def)
  have step: "mset (group1 t) + mset (group2 t) + mset (group3 t) + mset (group4 t) + D =
      mset (group1 s) + mset (group2 s) + mset (group3 s) + mset (group4 s) + {#blk#}"
    unfolding t_def D_def by (rule loop_body_partition)
  have ih: "mset (group1 (run_loop t blocks)) + mset (group2 (run_loop t blocks)) +
      mset (group3 (run_loop t blocks)) + mset (group4 (run_loop t blocks)) + E =
      mset (group1 t) + mset (group2 t) + mset (group3 t) + mset (group4 t) + mset blocks"
    unfolding E_def by (rule Cons.IH)
  have "mset (group1 (run_loop t blocks)) + mset (group2 (run_loop t blocks)) +
      mset (group3 (run_loop t blocks)) + mset (group4 (run_loop t blocks)) + (D + E) =
      (mset (group1 t) + mset (group2 t) + mset (group3 t) + mset (group4 t) + D) + mset blocks"
    using ih by (simp add: ac_simps)
  also have "\<dots> = mset (group1 s) + mset (group2 s) + mset (group3 s) + mset (group4 s) + mset (blk # blocks)"
    using step by simp
  finally show ?case
    unfolding run_loop_Cons d t_def [symmetric] .
qed

lemma length_group_blocks: "length (group_blocks blocks) = 4"
  by (simp add: group_blocks_def Let_def)

lemma disjoint_of_partition:
  assumes "mset a + mset b + mset c + mset d + mset e = mset xs" and "distinct xs"
  shows "set a \<inter> set b = {} \<and> set a \<inter> set c = {} \<and> set a \<inter> set d = {} \<and>
         set b \<inter> set c = {} \<and> set b \<inter> set d = {} \<and> set c \<inter> set d = {}"
proof -
  have "mset (a @ b @ c @ d @ e) = mset xs"
    using assms(1) by (simp add: ac_simps)
  then have "distinct (a @ b @ c @ d @ e)"
    using assms(2) mset_eq_imp_distinct_iff by blast
  then show ?thesis by auto
qed

lemma flags_loop_body:
  "(in_group2 (loop_body s blk), in_group3 (loop_body s blk), in_group4 (loop_body s blk)) =
     (case heading_of blk of
        Some SectionA \<Rightarrow> (True, False, False)
      | Some SectionB \<Rightarrow> (False, True, False)
      | Some SectionC \<Rightarrow> (False, False, True)
      | None \<Rightarrow> (in_group2 s, in_group3 s, in_group4 s))"
  by (simp add: heading_of_def loop_body_def)

lemma at_most_one_loop_body:
  "at_most_one_active s \<Longrightarrow> at_most_one_active (loop_body s blk)"
  using flags_loop_body [of s blk]
  by (auto simp add: at_most_one_active_def split: option.splits section_id.splits)

lemma at_most_one_run_loop:
  "at_most_one_active s \<Longrightarrow> at_most_one_active (run_loop s blocks)"
  by (induction blocks arbitrary: s) (simp_all add: run_loop_Nil run_loop_Cons at_most_one_loop_body)

lemma loop_body_spec_step: "loop_body s blk = spec_step s blk"
  by (simp add: loop_body_def spec_step_def spec_keyword_table_def spec_set_active_def
      active_group_def)

lemma bucket_heading:
  "heading_of h = Some X \<Longrightarrow>
     bucket X (loop_body s h) = bucket X s @ [h] \<and> active_group (loop_body s h) = Some X \<and>
     group1 (loop_body s h) = group1 s"
  by (cases X) (simp_all add: loop_body_heading active_group_def)

lemma bucket_heading_other:
  "heading_of h = Some X \<Longrightarrow> Y \<noteq> X \<Longrightarrow> bucket Y (loop_body s h) = bucket Y s"
  by (cases X; cases Y) (simp_all add: loop_body_heading)

lemma follower_iff: "is_follower f \<longleftrightarrow> \<not> is_marker f \<and> heading_of f = None"
  by (simp add: is_follower_def is_marker_def heading_of_def)

lemma bucket_no_heading:
  "heading_of f = None \<Longrightarrow> active_group s = Some X \<Longrightarrow>
     bucket X (loop_body s f) = bucket X s @ (if is_marker f then [] else [f]) \<and>
     active_group (loop_body s f) = Some X \<and>
     group1 (loop_body s f) = group1 s @ (if is_marker f then [f] else [])"
proof (cases "is_marker f")
  case True
  assume "active_group s = Some X"
  then show ?thesis
    using True by (cases X) (auto simp add: loop_body_marker active_group_def split: if_splits)
next
  case False
  assume "heading_of f = None" and a: "active_group s = Some X"
  then have f: "is_follower f" using False by (simp add: follower_iff)
  show ?thesis
    using a False
    by (cases X) (auto simp add: loop_body_follower [OF f] active_group_def split: if_splits)
qed

lemma bucket_no_heading_other:
  "heading_of f = None \<Longrightarrow> active_group s = Some X \<Longrightarrow> Y \<noteq> X \<Longrightarrow>
     bucket Y (loop_body s f) = bucket Y s"
proof (cases "is_marker f")
  case True
  then show ?thesis
    by (cases Y) (simp_all add: loop_body_marker)
next
  case False
  assume "heading_of f = None" and a: "active_group s = Some X" and n: "Y \<noteq> X"
  then have f: "is_follower f" using False by (simp add: follower_iff)
  show ?thesis
    using a n
    by (cases X; cases Y) (auto simp add: loop_body_follower [OF f] active_group_def split: if_splits)
qed

lemma no_heading_run:
  "\<forall>f \<in> set fs. heading_of f = None \<Longrightarrow> active_group s = Some X \<Longrightarrow>
     bucket X (run_loop s fs) = bucket X s @ filter (\<lambda>f. \<not> is_marker f) fs \<and>
     active_group (run_loop s fs) = Some X \<and>
     group1 (run_loop s fs) = group1 s @ filter is_marker fs"
proof (induction fs arbitrary: s)
  case Nil
  then show ?case by (simp add: run_loop_Nil)
next
  case (Cons f fs)
  have f: "heading_of f = None" and fs: "\<forall>f \<in> set fs. heading_of f = None"
    using Cons.prems(1) by simp_all
  note st = bucket_no_heading [OF f Cons.prems(2)]
  have "bucket X (run_loop (loop_body s f) fs) =
        bucket X (loop_body s f) @ filter (\<lambda>f. \<not> is_marker f) fs \<and>
      active_group (run_loop (loop_body s f) fs) = Some X \<and>
      group1 (run_loop (loop_body s f) fs) = group1 (loop_body s f) @ filter is_marker fs"
    using Cons.IH [OF fs] st by blast
  then show ?case
    using st by (simp add: run_loop_Cons)
qed

lemma no_heading_run_other:
  "\<forall>f \<in> set fs. heading_of f = None \<Longrightarrow> active_group s = Some X \<Longrightarrow> Y \<noteq> X \<Longrightarrow>
     bucket Y (run_loop s fs) = bucket Y s"
proof (induction fs arbitrary: s)
  case Nil
  then show ?case by (simp add: run_loop_Nil)
next
  case (Cons f fs)
  have f: "heading_of f = None" and fs: "\<forall>f \<in> set fs. heading_of f = None"
    using Cons.prems(1) by simp_all
  have a: "active_group (loop_body s f) = Some X"
    using bucket_no_heading [OF f Cons.prems(2)] by simp
  have "bucket Y (run_loop (loop_body s f) fs) = bucket Y (loop_body s f)"
    using Cons.IH [OF fs a Cons.prems(3)] .
  then show ?case
    using bucket_no_heading_other [OF f Cons.prems(2) Cons.prems(3)] by (simp add: run_loop_Cons)
qed

lemma shuffled_seven: "mset [g, d, a, e, f, c, b] = mset [a, b, c, d, e, f, g]"
  by simp

section \<open>Facts about the sort\<close>

declare bisect.simps [simp del]

lemma bisect_stop: "\<not> l < r \<Longrightarrow> bisect lt xs pivot l r = l"
  by (simp add: bisect.simps)

lemma bisect_left:
  "l < r \<Longrightarrow> lt pivot (xs ! (l + (r - l) div 2)) \<Longrightarrow>
   bisect lt xs pivot l r = bisect lt xs pivot l (l + (r - l) div 2)"
  by (subst bisect.simps) (simp add: Let_def)

lemma bisect_right:
  "l < r \<Longrightarrow> \<not> lt pivot (xs ! (l + (r - l) div 2)) \<Longrightarrow>
   bisect lt xs pivot l r = bisect lt xs pivot (l + (r - l) div 2 + 1) r"
  by (subst bisect.simps) (simp add: Let_def)

lemmas bisect_eval = bisect_stop bisect_left bisect_right

lemma binarysort_Nil: "binarysort lt acc [] = acc"
  by simp

lemma binarysort_Cons:
  "binarysort lt acc (pivot # rest) =
     binarysort lt (take (bisect lt acc pivot 0 (length acc)) acc @ pivot #
       drop (bisect lt acc pivot 0 (length acc)) acc) rest"
  by (simp add: Let_def)



declare binarysort.simps [simp del]

lemma mset_take_drop: "mset (take n xs) + mset (drop n xs) = mset xs"
  by (metis append_take_drop_id mset_append)

lemma mset_binarysort: "mset (binarysort lt acc rest) = mset acc + mset rest"
proof (induction rest arbitrary: acc)
  case Nil
  show ?case by (simp add: binarysort_Nil)
next
  case (Cons pivot rest)
  define l where "l = bisect lt acc pivot 0 (length acc)"
  have "mset (take l acc @ pivot # drop l acc) = add_mset pivot (mset acc)"
    using mset_take_drop [of l acc] by simp
  then show ?case
    unfolding binarysort_Cons l_def [symmetric] by (simp add: Cons.IH)
qed

lemma mset_list_sort: "mset (list_sort lt xs) = mset xs"
proof (cases "length xs < 2")
  case True
  then show ?thesis by (simp add: list_sort_def)
next
  case False
  obtain n d where c: "count_run lt xs = (n, d)"
    by (cases "count_run lt xs")
  have "mset (if d then rev (take n xs) else take n xs) = mset (take n xs)"
    by simp
  then show ?thesis
    using False c mset_take_drop [of n xs] by (simp add: list_sort_def mset_binarysort)
qed

lemma bisect_generic:
  assumes "l \<le> r" and "r \<le> length xs"
    and "\<forall>i<l. L (xs ! i)"
    and "\<forall>i. r \<le> i \<and> i < length xs \<longrightarrow> R (xs ! i)"
    and "\<forall>m<length xs. lt p (xs ! m) \<longrightarrow> (\<forall>i. m \<le> i \<and> i < length xs \<longrightarrow> R (xs ! i))"
    and "\<forall>m<length xs. \<not> lt p (xs ! m) \<longrightarrow> (\<forall>i\<le>m. L (xs ! i))"
  shows "bisect lt xs p l r \<le> r \<and> (\<forall>i<bisect lt xs p l r. L (xs ! i)) \<and>
         (\<forall>i. bisect lt xs p l r \<le> i \<and> i < length xs \<longrightarrow> R (xs ! i))"
  using assms
proof (induction lt xs p l r rule: bisect.induct)
  case (1 lt xs pivot l r)
  show ?case
  proof (cases "l < r")
    case False
    then have "l = r" using "1.prems"(1) by simp
    then show ?thesis
      using "1.prems" by (simp add: bisect_stop)
  next
    case True
    define m where "m = l + (r - l) div 2"
    have lm: "l \<le> m" and mr: "m < r"
      using True by (simp_all add: m_def)
    have ml: "m < length xs"
      using mr "1.prems"(2) by simp
    show ?thesis
    proof (cases "lt pivot (xs ! m)")
      case lt: True
      have e: "bisect lt xs pivot l r = bisect lt xs pivot l m"
        using True lt unfolding m_def by (rule bisect_left)
      have R: "\<forall>i. m \<le> i \<and> i < length xs \<longrightarrow> R (xs ! i)"
        using "1.prems"(5) ml lt by blast
      have "bisect lt xs pivot l m \<le> m \<and> (\<forall>i<bisect lt xs pivot l m. L (xs ! i)) \<and>
         (\<forall>i. bisect lt xs pivot l m \<le> i \<and> i < length xs \<longrightarrow> R (xs ! i))"
        using "1.IH"(1) [OF True m_def lt lm _ "1.prems"(3) R "1.prems"(5) "1.prems"(6)] ml
        by simp
      then show ?thesis
        unfolding e using mr by simp
    next
      case nlt: False
      have e: "bisect lt xs pivot l r = bisect lt xs pivot (m + 1) r"
        using True nlt unfolding m_def by (rule bisect_right)
      have L: "\<forall>i<m + 1. L (xs ! i)"
        using "1.prems"(6) ml nlt by (simp add: less_Suc_eq_le)
      have "bisect lt xs pivot (m + 1) r \<le> r \<and>
         (\<forall>i<bisect lt xs pivot (m + 1) r. L (xs ! i)) \<and>
         (\<forall>i. bisect lt xs pivot (m + 1) r \<le> i \<and> i < length xs \<longrightarrow> R (xs ! i))"
        using "1.IH"(2) [OF True m_def nlt _ "1.prems"(2) L "1.prems"(4) "1.prems"(5) "1.prems"(6)] mr
        by simp
      then show ?thesis
        unfolding e by simp
    qed
  qed
qed

lemma set_take_nth: "x \<in> set (take j xs) \<Longrightarrow> \<exists>i<j. i < length xs \<and> xs ! i = x"
  by (auto simp add: in_set_conv_nth)

lemma set_drop_nth: "x \<in> set (drop j xs) \<Longrightarrow> \<exists>i. j \<le> i \<and> i < length xs \<and> xs ! i = x"
proof -
  assume "x \<in> set (drop j xs)"
  then obtain i where "i < length (drop j xs)" and "drop j xs ! i = x"
    by (auto simp add: in_set_conv_nth)
  then have "j \<le> j + i \<and> j + i < length xs \<and> xs ! (j + i) = x"
    by auto
  then show ?thesis by blast
qed

text \<open>Where the bisection puts the pivot, in a list sorted by a key that the comparison respects.\<close>

lemma bisect_sorted:
  assumes s: "sorted (map f acc)"
    and up: "\<forall>y\<in>set acc. f p < f y \<longrightarrow> lt p y"
    and dn: "\<forall>y\<in>set acc. lt p y \<longrightarrow> f p \<le> f y"
  shows "(\<forall>x\<in>set (take (bisect lt acc p 0 (length acc)) acc). f x \<le> f p) \<and>
         (\<forall>x\<in>set (drop (bisect lt acc p 0 (length acc)) acc). f p \<le> f x)"
proof -
  have mono: "f (acc ! i) \<le> f (acc ! k)" if "i \<le> k" "k < length acc" for i k
    using sorted_nth_mono [OF s, of i k] that by simp
  have a: "\<forall>m<length acc. lt p (acc ! m) \<longrightarrow>
      (\<forall>i. m \<le> i \<and> i < length acc \<longrightarrow> f p \<le> f (acc ! i))"
  proof (intro allI impI)
    fix m i assume m: "m < length acc" and l: "lt p (acc ! m)" and i: "m \<le> i \<and> i < length acc"
    have "f p \<le> f (acc ! m)" using dn m l by simp
    also have "\<dots> \<le> f (acc ! i)" using mono i by simp
    finally show "f p \<le> f (acc ! i)" .
  qed
  have b: "\<forall>m<length acc. \<not> lt p (acc ! m) \<longrightarrow> (\<forall>i\<le>m. f (acc ! i) \<le> f p)"
  proof (intro allI impI)
    fix m i assume m: "m < length acc" and l: "\<not> lt p (acc ! m)" and i: "i \<le> m"
    have "\<not> f p < f (acc ! m)" using up m l by auto
    then have "f (acc ! m) \<le> f p" by simp
    moreover have "f (acc ! i) \<le> f (acc ! m)" using mono i m by simp
    ultimately show "f (acc ! i) \<le> f p" by simp
  qed
  have g': "bisect lt acc p 0 (length acc) \<le> length acc \<and>
      (\<forall>i<bisect lt acc p 0 (length acc). f (acc ! i) \<le> f p) \<and>
      (\<forall>i. bisect lt acc p 0 (length acc) \<le> i \<and> i < length acc \<longrightarrow> f p \<le> f (acc ! i))"
  proof (rule bisect_generic [where L = "\<lambda>x. f x \<le> f p" and R = "\<lambda>x. f p \<le> f x"])
    show "\<forall>m<length acc. lt p (acc ! m) \<longrightarrow>
        (\<forall>i. m \<le> i \<and> i < length acc \<longrightarrow> f p \<le> f (acc ! i))"
      by (rule a)
    show "\<forall>m<length acc. \<not> lt p (acc ! m) \<longrightarrow> (\<forall>i\<le>m. f (acc ! i) \<le> f p)"
      by (rule b)
  qed auto
  show ?thesis
    using g' set_take_nth [of _ "bisect lt acc p 0 (length acc)" acc]
      set_drop_nth [of _ "bisect lt acc p 0 (length acc)" acc]
    by blast
qed

lemma bisect_strict:
  assumes s: "sorted (map f acc)"
    and dn: "\<forall>y\<in>set acc. lt p y \<longrightarrow> f p < f y"
  shows "\<forall>x\<in>set (drop (bisect lt acc p 0 (length acc)) acc). f p < f x"
proof -
  have mono: "f (acc ! i) \<le> f (acc ! k)" if "i \<le> k" "k < length acc" for i k
    using sorted_nth_mono [OF s, of i k] that by simp
  have a: "\<forall>m<length acc. lt p (acc ! m) \<longrightarrow>
      (\<forall>i. m \<le> i \<and> i < length acc \<longrightarrow> f p < f (acc ! i))"
  proof (intro allI impI)
    fix m i assume m: "m < length acc" and l: "lt p (acc ! m)" and i: "m \<le> i \<and> i < length acc"
    have "f p < f (acc ! m)" using dn m l by simp
    also have "\<dots> \<le> f (acc ! i)" using mono i by simp
    finally show "f p < f (acc ! i)" .
  qed
  have g': "bisect lt acc p 0 (length acc) \<le> length acc \<and>
      (\<forall>i<bisect lt acc p 0 (length acc). True) \<and>
      (\<forall>i. bisect lt acc p 0 (length acc) \<le> i \<and> i < length acc \<longrightarrow> f p < f (acc ! i))"
  proof (rule bisect_generic [where L = "\<lambda>x. True" and R = "\<lambda>x. f p < f x"])
    show "\<forall>m<length acc. lt p (acc ! m) \<longrightarrow>
        (\<forall>i. m \<le> i \<and> i < length acc \<longrightarrow> f p < f (acc ! i))"
      by (rule a)
  qed auto
  show ?thesis
    using g' set_drop_nth [of _ "bisect lt acc p 0 (length acc)" acc] by blast
qed

lemma sorted_insert_at:
  assumes "sorted (map f acc)"
    and "\<forall>x\<in>set (take j acc). f x \<le> f p" and "\<forall>x\<in>set (drop j acc). f p \<le> f x"
  shows "sorted (map f (take j acc @ p # drop j acc))"
proof -
  have "sorted (map f (take j acc @ drop j acc))"
    using assms(1) by simp
  then have "sorted (map f (take j acc) @ map f (drop j acc))"
    by (simp only: map_append)
  then have t: "sorted (map f (take j acc))" and d: "sorted (map f (drop j acc))"
    by (simp_all add: sorted_append)
  show ?thesis
    using t d assms(2,3) by (auto simp add: sorted_append intro: order_trans)
qed

lemma sorted_binarysort:
  assumes "sorted (map f acc)"
    and "\<forall>x\<in>set acc \<union> set rest. \<forall>y\<in>set acc \<union> set rest. f x < f y \<longrightarrow> lt x y"
    and "\<forall>x\<in>set acc \<union> set rest. \<forall>y\<in>set acc \<union> set rest. lt x y \<longrightarrow> f x \<le> f y"
  shows "sorted (map f (binarysort lt acc rest))"
  using assms
proof (induction rest arbitrary: acc)
  case Nil
  then show ?case by (simp add: binarysort_Nil)
next
  case (Cons p rest)
  define j where "j = bisect lt acc p 0 (length acc)"
  define acc' where "acc' = take j acc @ p # drop j acc"
  have up: "\<forall>y\<in>set acc. f p < f y \<longrightarrow> lt p y" and dn: "\<forall>y\<in>set acc. lt p y \<longrightarrow> f p \<le> f y"
    using Cons.prems(2,3) by auto
  note b = bisect_sorted [where f = f and lt = lt and p = p and acc = acc, OF Cons.prems(1) up dn, folded j_def]
  have s: "sorted (map f acc')"
    unfolding acc'_def using Cons.prems(1) b by (intro sorted_insert_at) auto
  have "set acc' = insert p (set acc)"
    unfolding acc'_def using set_append [of "take j acc" "drop j acc"] by auto
  then have st: "set acc' \<union> set rest = set acc \<union> set (p # rest)"
    by auto
  have "sorted (map f (binarysort lt acc' rest))"
    using Cons.IH [OF s] Cons.prems(2,3) unfolding st by blast
  then show ?case
    unfolding binarysort_Cons j_def [symmetric] acc'_def .
qed

lemma ascending_run_sorted:
  assumes "\<forall>x\<in>set (prev # xs). \<forall>y\<in>set (prev # xs). f x < f y \<longrightarrow> lt x y"
  shows "sorted (map f (prev # take (run_ascending lt prev xs) xs))"
  using assms
proof (induction xs arbitrary: prev)
  case Nil
  show ?case by simp
next
  case (Cons x xs)
  show ?case
  proof (cases "lt x prev")
    case True
    then show ?thesis by simp
  next
    case False
    have "\<not> f x < f prev" using Cons.prems False by auto
    then have le: "f prev \<le> f x" by simp
    have "sorted (map f (x # take (run_ascending lt x xs) xs))"
      using Cons.IH [of x] Cons.prems by auto
    then show ?thesis
      using False le by auto
  qed
qed

lemma descending_run_sorted:
  assumes "\<forall>x\<in>set (prev # xs). \<forall>y\<in>set (prev # xs). lt x y \<longrightarrow> f x \<le> f y"
  shows "sorted (map f (rev (prev # take (run_descending lt prev xs) xs)))"
  using assms
proof (induction xs arbitrary: prev)
  case Nil
  show ?case by simp
next
  case (Cons x xs)
  show ?case
  proof (cases "lt x prev")
    case False
    then show ?thesis by simp
  next
    case True
    have le: "f x \<le> f prev" using Cons.prems True by auto
    have ih: "sorted (map f (rev (x # take (run_descending lt x xs) xs)))"
      using Cons.IH [of x] Cons.prems by auto
    have "\<forall>y\<in>set (rev (x # take (run_descending lt x xs) xs)). f y \<le> f x"
      using ih by (simp add: sorted_append)
    then have "\<forall>y\<in>set (rev (x # take (run_descending lt x xs) xs)). f y \<le> f prev"
      using le by (meson order_trans)
    then have "sorted (map f (rev (x # take (run_descending lt x xs) xs) @ [prev]))"
      using ih by (simp add: sorted_append)
    then show ?thesis
      using True by simp
  qed
qed

lemma sorted_list_sort:
  assumes up: "\<forall>x\<in>set xs. \<forall>y\<in>set xs. f x < f y \<longrightarrow> lt x y"
    and dn: "\<forall>x\<in>set xs. \<forall>y\<in>set xs. lt x y \<longrightarrow> f x \<le> f y"
  shows "sorted (map f (list_sort lt xs))"
proof (cases xs)
  case Nil
  then show ?thesis by (simp add: list_sort_def)
next
  case (Cons x ys)
  show ?thesis
  proof (cases ys)
    case Nil
    then show ?thesis using Cons by (simp add: list_sort_def)
  next
    case (Cons y zs)
    have xs: "xs = x # y # zs" using \<open>xs = x # ys\<close> Cons by simp
    define n where "n = fst (count_run lt xs)"
    define d where "d = snd (count_run lt xs)"
    define run where "run = (if d then rev (take n xs) else take n xs)"
    have ls: "list_sort lt xs = binarysort lt run (drop n xs)"
      by (simp add: list_sort_def xs run_def n_def d_def split: prod.splits)
    have st: "set run \<union> set (drop n xs) = set xs"
      using set_append [of "take n xs" "drop n xs"] by (auto simp add: run_def)
    have sr: "sorted (map f run)"
    proof (cases "lt y x")
      case True
      have le: "f y \<le> f x" using dn True xs by auto
      have "sorted (map f (rev (y # take (run_descending lt y zs) zs)))"
        by (rule descending_run_sorted) (use dn xs in auto)
      moreover have "\<forall>b\<in>set (rev (y # take (run_descending lt y zs) zs)). f b \<le> f y"
        using calculation by (simp add: sorted_append)
      ultimately have "sorted (map f (rev (y # take (run_descending lt y zs) zs) @ [x]))"
        using le by (auto simp add: sorted_append intro: order_trans)
      then show ?thesis
        using True by (simp add: run_def n_def d_def xs)
    next
      case False
      have "\<not> f y < f x" using up False xs by auto
      then have le: "f x \<le> f y" by simp
      have "sorted (map f (y # take (run_ascending lt y zs) zs))"
        by (rule ascending_run_sorted) (use up xs in auto)
      then show ?thesis
        using False le by (auto simp add: run_def n_def d_def xs)
    qed
    show ?thesis
      unfolding ls
      by (rule sorted_binarysort [OF sr]) (use up dn st in auto)
  qed
qed

lemma filter_insert_at:
  fixes f :: "'a \<Rightarrow> 'k::linorder"
  assumes "\<forall>x\<in>set (drop j acc). f p < f x"
  shows "filter (\<lambda>x. f x = k) (take j acc @ p # drop j acc) = filter (\<lambda>x. f x = k) (acc @ [p])"
proof (cases "f p = k")
  case True
  have "filter (\<lambda>x. f x = k) (drop j acc) = []"
    using assms True by (auto simp add: filter_empty_conv)
  moreover have "filter (\<lambda>x. f x = k) acc =
      filter (\<lambda>x. f x = k) (take j acc) @ filter (\<lambda>x. f x = k) (drop j acc)"
    by (metis append_take_drop_id filter_append)
  ultimately show ?thesis
    using True by simp
next
  case False
  have "filter (\<lambda>x. f x = k) acc =
      filter (\<lambda>x. f x = k) (take j acc) @ filter (\<lambda>x. f x = k) (drop j acc)"
    by (metis append_take_drop_id filter_append)
  then show ?thesis
    using False by simp
qed

lemma filter_binarysort:
  fixes f :: "'a \<Rightarrow> 'k::linorder"
  assumes "sorted (map f acc)"
    and "\<forall>x\<in>set acc \<union> set rest. \<forall>y\<in>set acc \<union> set rest. lt x y = (f x < f y)"
  shows "filter (\<lambda>x. f x = k) (binarysort lt acc rest) = filter (\<lambda>x. f x = k) (acc @ rest)"
  using assms
proof (induction rest arbitrary: acc)
  case Nil
  then show ?case by (simp add: binarysort_Nil)
next
  case (Cons p rest)
  define j where "j = bisect lt acc p 0 (length acc)"
  define acc' where "acc' = take j acc @ p # drop j acc"
  have up: "\<forall>y\<in>set acc. f p < f y \<longrightarrow> lt p y" and dn: "\<forall>y\<in>set acc. lt p y \<longrightarrow> f p \<le> f y"
    and sd: "\<forall>y\<in>set acc. lt p y \<longrightarrow> f p < f y"
    using Cons.prems(2) by auto
  note b = bisect_sorted [where f = f and lt = lt and p = p and acc = acc,
      OF Cons.prems(1) up dn, folded j_def]
  note c = bisect_strict [where f = f and lt = lt and p = p and acc = acc,
      OF Cons.prems(1) sd, folded j_def]
  have s: "sorted (map f acc')"
    unfolding acc'_def using Cons.prems(1) b by (intro sorted_insert_at) auto
  have "set acc' = insert p (set acc)"
    unfolding acc'_def using set_append [of "take j acc" "drop j acc"] by auto
  then have st: "set acc' \<union> set rest = set acc \<union> set (p # rest)"
    by auto
  have "filter (\<lambda>x. f x = k) (binarysort lt acc' rest) = filter (\<lambda>x. f x = k) (acc' @ rest)"
    using Cons.IH [OF s] Cons.prems(2) unfolding st by blast
  also have "\<dots> = filter (\<lambda>x. f x = k) acc' @ filter (\<lambda>x. f x = k) rest"
    by simp
  also have "filter (\<lambda>x. f x = k) acc' = filter (\<lambda>x. f x = k) (acc @ [p])"
    unfolding acc'_def by (rule filter_insert_at [OF c])
  finally show ?case
    unfolding binarysort_Cons j_def [symmetric] acc'_def by simp
qed

lemma descending_run_keys:
  fixes f :: "'a \<Rightarrow> 'k::linorder"
  assumes "\<forall>x\<in>set (prev # xs). \<forall>y\<in>set (prev # xs). lt x y \<longrightarrow> f x < f y"
  shows "\<forall>b\<in>set (take (run_descending lt prev xs) xs). f b < f prev"
  using assms
proof (induction xs arbitrary: prev)
  case Nil
  show ?case by simp
next
  case (Cons x xs)
  show ?case
  proof (cases "lt x prev")
    case False
    then show ?thesis by simp
  next
    case True
    have lt: "f x < f prev" using Cons.prems True by auto
    have "\<forall>b\<in>set (take (run_descending lt x xs) xs). f b < f x"
      using Cons.IH [of x] Cons.prems by auto
    then show ?thesis
      using True lt by auto
  qed
qed

lemma filter_rev_descending_run:
  fixes f :: "'a \<Rightarrow> 'k::linorder"
  assumes "\<forall>x\<in>set (prev # xs). \<forall>y\<in>set (prev # xs). lt x y \<longrightarrow> f x < f y"
  shows "filter (\<lambda>x. f x = k) (rev (prev # take (run_descending lt prev xs) xs)) =
         filter (\<lambda>x. f x = k) (prev # take (run_descending lt prev xs) xs)"
  using assms
proof (induction xs arbitrary: prev)
  case Nil
  show ?case by simp
next
  case (Cons x xs)
  show ?case
  proof (cases "lt x prev")
    case False
    then show ?thesis by simp
  next
    case True
    define run where "run = x # take (run_descending lt x xs) xs"
    have r: "take (run_descending lt prev (x # xs)) (x # xs) = run"
      using True by (simp add: run_def)
    have ih: "filter (\<lambda>x. f x = k) (rev run) = filter (\<lambda>x. f x = k) run"
      unfolding run_def using Cons.IH [of x] Cons.prems by auto
    have below: "\<forall>b\<in>set run. f b < f prev"
      using descending_run_keys [OF Cons.prems] r by simp
    show ?thesis
    proof (cases "f prev = k")
      case False
      then show ?thesis unfolding r using ih by simp
    next
      case True
      have "filter (\<lambda>x. f x = k) run = []"
        using below True by (auto simp add: filter_empty_conv)
      then show ?thesis unfolding r using ih by simp
    qed
  qed
qed

lemma filter_list_sort:
  fixes f :: "'a \<Rightarrow> 'k::linorder"
  assumes ag: "\<forall>x\<in>set xs. \<forall>y\<in>set xs. lt x y = (f x < f y)"
  shows "filter (\<lambda>x. f x = k) (list_sort lt xs) = filter (\<lambda>x. f x = k) xs"
proof (cases xs)
  case Nil
  then show ?thesis by (simp add: list_sort_def)
next
  case (Cons x ys)
  show ?thesis
  proof (cases ys)
    case Nil
    then show ?thesis using Cons by (simp add: list_sort_def)
  next
    case (Cons y zs)
    have xs: "xs = x # y # zs" using \<open>xs = x # ys\<close> Cons by simp
    define n where "n = fst (count_run lt xs)"
    define d where "d = snd (count_run lt xs)"
    define run where "run = (if d then rev (take n xs) else take n xs)"
    have ls: "list_sort lt xs = binarysort lt run (drop n xs)"
      by (simp add: list_sort_def xs run_def n_def d_def split: prod.splits)
    have st: "set run \<union> set (drop n xs) = set xs"
      using set_append [of "take n xs" "drop n xs"] by (auto simp add: run_def)
    have up: "\<forall>x\<in>set xs. \<forall>y\<in>set xs. f x < f y \<longrightarrow> lt x y"
      and dn: "\<forall>x\<in>set xs. \<forall>y\<in>set xs. lt x y \<longrightarrow> f x \<le> f y"
      and sd: "\<forall>x\<in>set xs. \<forall>y\<in>set xs. lt x y \<longrightarrow> f x < f y"
      using ag by auto
    have sr: "sorted (map f run)"
    proof (cases "lt y x")
      case True
      have le: "f y \<le> f x" using dn True xs by auto
      have "sorted (map f (rev (y # take (run_descending lt y zs) zs)))"
        by (rule descending_run_sorted) (use dn xs in auto)
      moreover have "\<forall>b\<in>set (rev (y # take (run_descending lt y zs) zs)). f b \<le> f y"
        using calculation by (simp add: sorted_append)
      ultimately have "sorted (map f (rev (y # take (run_descending lt y zs) zs) @ [x]))"
        using le by (auto simp add: sorted_append intro: order_trans)
      then show ?thesis
        using True by (simp add: run_def n_def d_def xs)
    next
      case False
      have "\<not> f y < f x" using up False xs by auto
      then have le: "f x \<le> f y" by simp
      have "sorted (map f (y # take (run_ascending lt y zs) zs))"
        by (rule ascending_run_sorted) (use up xs in auto)
      then show ?thesis
        using False le by (auto simp add: run_def n_def d_def xs)
    qed
    have fr: "filter (\<lambda>x. f x = k) run = filter (\<lambda>x. f x = k) (take n xs)"
    proof (cases "lt y x")
      case False
      then show ?thesis by (simp add: run_def d_def xs)
    next
      case True
      have t: "take n xs = x # take (run_descending lt x (y # zs)) (y # zs)"
        using True by (simp add: n_def xs)
      have "filter (\<lambda>x. f x = k) (rev (x # take (run_descending lt x (y # zs)) (y # zs))) =
          filter (\<lambda>x. f x = k) (x # take (run_descending lt x (y # zs)) (y # zs))"
        by (rule filter_rev_descending_run) (use sd xs in auto)
      then show ?thesis
        using True unfolding run_def t by (simp add: d_def xs)
    qed
    have "filter (\<lambda>x. f x = k) (list_sort lt xs) = filter (\<lambda>x. f x = k) (run @ drop n xs)"
      unfolding ls by (rule filter_binarysort [OF sr]) (use ag st in auto)
    also have "\<dots> = filter (\<lambda>x. f x = k) (take n xs) @ filter (\<lambda>x. f x = k) (drop n xs)"
      using fr by simp
    also have "\<dots> = filter (\<lambda>x. f x = k) (take n xs @ drop n xs)"
      by (simp only: filter_append)
    finally show ?thesis by simp
  qed
qed

lemma list_sort_eq_sort_key:
  fixes f :: "'a \<Rightarrow> 'k::linorder"
  assumes ag: "\<forall>x\<in>set xs. \<forall>y\<in>set xs. lt x y = (f x < f y)"
  shows "list_sort lt xs = sort_key f xs"
proof (rule properties_for_sort_key [symmetric])
  show "mset (list_sort lt xs) = mset xs"
    by (rule mset_list_sort)
  show "sorted (map f (list_sort lt xs))"
    by (rule sorted_list_sort) (use ag in auto)
  fix k
  show "filter (\<lambda>x. f k = f x) (list_sort lt xs) = filter (\<lambda>x. f k = f x) xs"
    using filter_list_sort [OF ag, of "f k"] by (simp add: eq_commute)
qed

lemma float_lt_rank:
  "a \<noteq> NaN \<Longrightarrow> b \<noteq> NaN \<Longrightarrow> float_lt a b = (float_rank a < float_rank b)"
  by (cases a; cases b) (simp_all add: less_prod_def)

lemma float_eq_rank:
  "a \<noteq> NaN \<Longrightarrow> b \<noteq> NaN \<Longrightarrow> float_eq a b = (float_rank a = float_rank b)"
  by (cases a; cases b) simp_all

lemma float_lt_irrefl: "\<not> float_lt a a"
  by (cases a) simp_all

lemma tuple_lt_irrefl: "\<not> tuple_lt k k"
  by (simp add: tuple_lt_def float_lt_irrefl)


lemma lex_less:
  fixes p q :: "'a::linorder" and r s :: "'b::linorder"
  shows "((p, r) < (q, s)) = (p < q \<or> p = q \<and> r < s)"
  by auto

lemma tuple_lt_keys:
  assumes "y0 a \<noteq> NaN" and "x0 a \<noteq> NaN" and "y0 b \<noteq> NaN" and "x0 b \<noteq> NaN"
  shows "tuple_lt (key a) (key b) =
         ((float_rank (y0 a), float_rank (x0 a)) < (float_rank (y0 b), float_rank (x0 b)))"
proof -
  have "tuple_lt (key a) (key b) =
      (float_rank (y0 a) < float_rank (y0 b) \<or>
       float_rank (y0 a) = float_rank (y0 b) \<and> float_rank (x0 a) < float_rank (x0 b))"
    using assms
    by (auto simp add: tuple_lt_def key_def float_lt_rank float_eq_rank)
  also have "\<dots> = ((float_rank (y0 a), float_rank (x0 a)) < (float_rank (y0 b), float_rank (x0 b)))"
    by (simp only: lex_less)
  finally show ?thesis .
qed


lemma sort_blocks_sort_key:
  assumes "\<forall>b\<in>set blocks. y0 b \<noteq> NaN \<and> x0 b \<noteq> NaN"
  shows "sort_blocks blocks =
         sort_key (\<lambda>blk. (float_rank (y0 blk), float_rank (x0 blk))) blocks"
  unfolding sort_blocks_def
  by (rule list_sort_eq_sort_key) (use assms tuple_lt_keys in auto)

lemma sort_blocks_unique:
  assumes m: "mset xs = mset ys"
    and n: "\<forall>b\<in>set xs. y0 b \<noteq> NaN"
    and i: "inj_on (\<lambda>blk. float_rank (y0 blk)) (set xs)"
    and s: "sorted (map (\<lambda>blk. float_rank (y0 blk)) ys)"
  shows "sort_blocks xs = ys"
proof -
  have ag: "\<forall>a\<in>set xs. \<forall>b\<in>set xs.
      tuple_lt (key a) (key b) = (float_rank (y0 a) < float_rank (y0 b))"
  proof (intro ballI)
    fix a b assume a: "a \<in> set xs" and b: "b \<in> set xs"
    show "tuple_lt (key a) (key b) = (float_rank (y0 a) < float_rank (y0 b))"
    proof (cases "float_rank (y0 a) = float_rank (y0 b)")
      case True
      then have "a = b" using i a b by (auto dest: inj_onD)
      then show ?thesis by (simp add: tuple_lt_irrefl)
    next
      case False
      have na: "y0 a \<noteq> NaN" and nb: "y0 b \<noteq> NaN" using n a b by auto
      show ?thesis
        using False by (simp add: tuple_lt_def key_def float_lt_rank [OF na nb]
            float_eq_rank [OF na nb])
    qed
  qed
  have "sort_blocks xs = sort_key (\<lambda>blk. float_rank (y0 blk)) xs"
    unfolding sort_blocks_def by (rule list_sort_eq_sort_key) (use ag in auto)
  also have "\<dots> = ys"
    by (rule sort_key_inj_key_eq [OF m i s])
  finally show ?thesis .
qed

lemma append_blocks_six:
  assumes "\<forall>b\<in>set raw_blocks. further_fields b = []"
  shows "append_blocks blocks raw_blocks = Inr (blocks @ map make_block raw_blocks)"
  using assms by (induction raw_blocks arbitrary: blocks) simp_all

lemma append_blocks_more:
  assumes "\<exists>b\<in>set raw_blocks. further_fields b \<noteq> []"
  shows "append_blocks blocks raw_blocks = Inl UnpackValueError"
  using assms by (induction raw_blocks arbitrary: blocks) auto

lemma extract_text_blocks_page_error:
  "int (page_count doc) \<le> page_index \<Longrightarrow>
   extract_text_blocks doc page_index = Inl (PageValueError (page_count doc) page_index)"
  by (simp add: extract_text_blocks_def)

lemma extract_text_blocks_six_fields:
  "page_index < int (page_count doc) \<Longrightarrow>
   \<forall>b\<in>set (get_text_blocks doc page_index). further_fields b = [] \<Longrightarrow>
   extract_text_blocks doc page_index =
     Inr (sort_blocks (map make_block (get_text_blocks doc page_index)))"
  by (simp add: extract_text_blocks_def append_blocks_six)

lemma extract_text_blocks_more_fields:
  "page_index < int (page_count doc) \<Longrightarrow>
   \<exists>b\<in>set (get_text_blocks doc page_index). further_fields b \<noteq> [] \<Longrightarrow>
   extract_text_blocks doc page_index = Inl UnpackValueError"
  by (simp add: extract_text_blocks_def append_blocks_more)

section \<open>The concrete scenario\<close>

text \<open>
  C1. The seven fragments "RESTRICTED" (top 0), "Programme/Project Status Report"
  (top 10), "line A" (top 20), "Description" (top 30), "line B" (top 40),
  "Report Parameters" (top 50) and "line C" (top 60), given in any order (any list with
  the same elements), sorted by \<open>sort_blocks\<close> and then grouped by \<open>group_blocks\<close>, give
  the marker group \<open>[RESTRICTED]\<close> and the three sections, each its heading followed by
  its line, in this order. The other fields of the fragments are arbitrary (a left
  coordinate may even be a NaN).
\<close>

theorem scenario_groups:
  assumes t: "text' f1 = ''RESTRICTED''" "text' f2 = ''Programme/Project Status Report''"
      "text' f3 = ''line A''" "text' f4 = ''Description''" "text' f5 = ''line B''"
      "text' f6 = ''Report Parameters''" "text' f7 = ''line C''"
    and y: "y0 f1 = Float 0" "y0 f2 = Float 10" "y0 f3 = Float 20" "y0 f4 = Float 30"
      "y0 f5 = Float 40" "y0 f6 = Float 50" "y0 f7 = Float 60"
    and p: "mset blocks = mset [f1, f2, f3, f4, f5, f6, f7]"
  shows "group_blocks (sort_blocks blocks) = [[f1], [f2, f3], [f4, f5], [f6, f7]]"
proof -
  have "set blocks = set [f1, f2, f3, f4, f5, f6, f7]"
    using p by (rule mset_eq_setD)
  then have s: "set blocks = {f1, f2, f3, f4, f5, f6, f7}"
    by simp
  have n: "\<forall>b\<in>set blocks. y0 b \<noteq> NaN"
    unfolding s using y by simp
  have inj: "inj_on (\<lambda>blk. float_rank (y0 blk)) (set blocks)"
    unfolding s inj_on_def using y by auto
  have srt: "sorted (map (\<lambda>blk. float_rank (y0 blk)) [f1, f2, f3, f4, f5, f6, f7])"
    using y by (simp add: less_eq_prod_def)
  have "sort_blocks blocks = [f1, f2, f3, f4, f5, f6, f7]"
    by (rule sort_blocks_unique [OF p n inj srt])
  moreover have "group_blocks [f1, f2, f3, f4, f5, f6, f7] = [[f1], [f2, f3], [f4, f5], [f6, f7]]"
    using t by (simp add: group_blocks_def run_loop_def loop_body_def init_state_def string_eval)
  ultimately show ?thesis by simp
qed

theorem scenario_groups_witness:
  "group_blocks (sort_blocks
     [block_at ''line C'' 60, block_at ''Description'' 30, block_at ''RESTRICTED'' 0,
      block_at ''line B'' 40, block_at ''Report Parameters'' 50, block_at ''line A'' 20,
      block_at ''Programme/Project Status Report'' 10]) =
   [[block_at ''RESTRICTED'' 0],
    [block_at ''Programme/Project Status Report'' 10, block_at ''line A'' 20],
    [block_at ''Description'' 30, block_at ''line B'' 40],
    [block_at ''Report Parameters'' 50, block_at ''line C'' 60]]"
proof -
  let ?f1 = "block_at ''RESTRICTED'' 0"
  let ?f2 = "block_at ''Programme/Project Status Report'' 10"
  let ?f3 = "block_at ''line A'' 20"
  let ?f4 = "block_at ''Description'' 30"
  let ?f5 = "block_at ''line B'' 40"
  let ?f6 = "block_at ''Report Parameters'' 50"
  let ?f7 = "block_at ''line C'' 60"
  have p: "mset [?f7, ?f4, ?f1, ?f5, ?f6, ?f3, ?f2] = mset [?f1, ?f2, ?f3, ?f4, ?f5, ?f6, ?f7]"
    by (rule shuffled_seven)
  show ?thesis
    by (rule scenario_groups [OF _ _ _ _ _ _ _ _ _ _ _ _ _ _ p]) (simp_all add: block_at_def)
qed

section \<open>The segmenter\<close>

text \<open>
  C2. For every input list, the four groups returned by \<open>group_blocks\<close> together with
  the dropped blocks (the followers met while no section flag is set) hold exactly the
  input blocks, each occurrence once: as multisets the five lists add up to the input, so
  the four group sizes plus the number of dropped blocks equal the input size; and when
  the input blocks are pairwise different, the four groups are pairwise disjoint as sets.
\<close>

theorem group_blocks_partition:
  "\<exists>g1 g2 g3 g4. group_blocks blocks = [g1, g2, g3, g4] \<and>
     mset g1 + mset g2 + mset g3 + mset g4 + mset (dropped init_state blocks) = mset blocks \<and>
     length g1 + length g2 + length g3 + length g4 + length (dropped init_state blocks)
       = length blocks \<and>
     (distinct blocks \<longrightarrow>
        set g1 \<inter> set g2 = {} \<and> set g1 \<inter> set g3 = {} \<and> set g1 \<inter> set g4 = {} \<and>
        set g2 \<inter> set g3 = {} \<and> set g2 \<inter> set g4 = {} \<and> set g3 \<inter> set g4 = {})"
proof -
  define s where "s = run_loop init_state blocks"
  have gb: "group_blocks blocks = [group1 s, group2 s, group3 s, group4 s]"
    by (simp add: group_blocks_def s_def Let_def)
  have m: "mset (group1 s) + mset (group2 s) + mset (group3 s) + mset (group4 s) +
      mset (dropped init_state blocks) = mset blocks"
    unfolding s_def using run_loop_partition [of init_state blocks]
    by (simp add: init_state_def)
  have "size (mset (group1 s) + mset (group2 s) + mset (group3 s) + mset (group4 s) +
      mset (dropped init_state blocks)) = size (mset blocks)"
    by (simp only: m)
  then have l: "length (group1 s) + length (group2 s) + length (group3 s) + length (group4 s) +
      length (dropped init_state blocks) = length blocks"
    by simp
  show ?thesis
    using gb m l disjoint_of_partition [OF m] by blast
qed

theorem group_blocks_partition_witness:
  "distinct [block_at ''orphan'' (- 5), block_at ''RESTRICTED'' 0,
      block_at ''Description'' 30, block_at ''line B'' 40] \<and>
   (\<exists>g1 g2 g3 g4.
      group_blocks [block_at ''orphan'' (- 5), block_at ''RESTRICTED'' 0,
        block_at ''Description'' 30, block_at ''line B'' 40] = [g1, g2, g3, g4] \<and>
      length g1 + length g2 + length g3 + length g4 +
        length (dropped init_state [block_at ''orphan'' (- 5), block_at ''RESTRICTED'' 0,
          block_at ''Description'' 30, block_at ''line B'' 40]) = 4 \<and>
      set g1 \<inter> set g2 = {} \<and> set g1 \<inter> set g3 = {} \<and> set g1 \<inter> set g4 = {} \<and>
      set g2 \<inter> set g3 = {} \<and> set g2 \<inter> set g4 = {} \<and> set g3 \<inter> set g4 = {})"
proof -
  let ?ex = "[block_at ''orphan'' (- 5), block_at ''RESTRICTED'' 0,
      block_at ''Description'' 30, block_at ''line B'' 40]"
  have d: "distinct ?ex"
    by (simp add: block_at_def)
  have n: "length ?ex = 4"
    by simp
  obtain g1 g2 g3 g4 where
    g: "group_blocks ?ex = [g1, g2, g3, g4]" and
    l: "length g1 + length g2 + length g3 + length g4 + length (dropped init_state ?ex)
          = length ?ex" and
    i: "distinct ?ex \<longrightarrow>
        set g1 \<inter> set g2 = {} \<and> set g1 \<inter> set g3 = {} \<and> set g1 \<inter> set g4 = {} \<and>
        set g2 \<inter> set g3 = {} \<and> set g2 \<inter> set g4 = {} \<and> set g3 \<inter> set g4 = {}"
    using group_blocks_partition [of ?ex] by (elim exE conjE)
  have l4: "length g1 + length g2 + length g3 + length g4 + length (dropped init_state ?ex) = 4"
    using l unfolding n .
  have j: "set g1 \<inter> set g2 = {} \<and> set g1 \<inter> set g3 = {} \<and> set g1 \<inter> set g4 = {} \<and>
        set g2 \<inter> set g3 = {} \<and> set g2 \<inter> set g4 = {} \<and> set g3 \<inter> set g4 = {}"
    using i d by (rule mp)
  have "\<exists>g1 g2 g3 g4. group_blocks ?ex = [g1, g2, g3, g4] \<and>
      length g1 + length g2 + length g3 + length g4 + length (dropped init_state ?ex) = 4 \<and>
      set g1 \<inter> set g2 = {} \<and> set g1 \<inter> set g3 = {} \<and> set g1 \<inter> set g4 = {} \<and>
      set g2 \<inter> set g3 = {} \<and> set g2 \<inter> set g4 = {} \<and> set g3 \<inter> set g4 = {}"
    using g l4 j by (intro exI conjI) (elim conjE, assumption)+
  with d show ?thesis by (rule conjI)
qed

text \<open>
  C3. In any state of the pass, a block whose cleaned text contains "restricted" is
  appended to \<open>group1\<close> and nothing else changes: the flags, and so the active group,
  stay as they were. In particular, for a heading of the first section, then a marker,
  then a follower, the follower is put in the first section (\<open>group2\<close>), behind the
  heading: it is not put in the marker group and it is not dropped.
\<close>

theorem marker_independence:
  "(is_marker m \<longrightarrow>
      loop_body s m = s\<lparr>group1 := group1 s @ [m]\<rparr> \<and>
      active_group (loop_body s m) = active_group s) \<and>
   (heading_of h = Some SectionA \<and> is_marker m \<and> is_follower f \<longrightarrow>
      group_blocks [h, m, f] = [[m], [h, f], [], []])"
proof (intro conjI impI)
  assume "is_marker m"
  then show "loop_body s m = s\<lparr>group1 := group1 s @ [m]\<rparr>"
    by (rule loop_body_marker)
next
  assume "is_marker m"
  then show "active_group (loop_body s m) = active_group s"
    by (simp add: loop_body_marker active_group_def)
next
  assume a: "heading_of h = Some SectionA \<and> is_marker m \<and> is_follower f"
  then show "group_blocks [h, m, f] = [[m], [h, f], [], []]"
    by (simp add: group_blocks_def run_loop_Cons run_loop_Nil loop_body_heading loop_body_marker
        loop_body_follower init_state_def)
qed

theorem marker_independence_witness:
  "heading_of (block_at ''Programme/Project Status Report'' 10) = Some SectionA \<and>
   is_marker (block_at ''RESTRICTED'' 20) \<and>
   is_follower (block_at ''line A'' 30) \<and>
   group_blocks [block_at ''Programme/Project Status Report'' 10, block_at ''RESTRICTED'' 20,
       block_at ''line A'' 30] =
     [[block_at ''RESTRICTED'' 20],
      [block_at ''Programme/Project Status Report'' 10, block_at ''line A'' 30], [], []] \<and>
   loop_body init_state (block_at ''RESTRICTED'' 20) =
     init_state\<lparr>group1 := [block_at ''RESTRICTED'' 20]\<rparr>"
proof -
  have h: "heading_of (block_at ''Programme/Project Status Report'' 10) = Some SectionA"
    by (simp add: heading_of_def block_at_def string_eval)
  have m: "is_marker (block_at ''RESTRICTED'' 20)"
    by (simp add: is_marker_def block_at_def string_eval)
  have f: "is_follower (block_at ''line A'' 30)"
    by (simp add: is_follower_def block_at_def string_eval)
  show ?thesis
    using h m f
      marker_independence [of "block_at ''RESTRICTED'' 20" init_state
        "block_at ''Programme/Project Status Report'' 10" "block_at ''line A'' 30"]
    by (simp add: init_state_def)
qed

text \<open>
  C7. The step of the loop is the step of the specification's rule table: the earliest
  keyword of the fixed order "restricted", "programme/project status report",
  "description", "report parameters" that occurs in the cleaned text decides what is done
  with the block. In particular a block that contains both "description" and
  "report parameters" (and neither of the two earlier keywords) is appended to the
  second section (\<open>group3\<close>), which becomes the active one, and the third section
  (\<open>group4\<close>) is left as it was. Whatever else it contains, a block containing
  "description" is never appended to \<open>group4\<close>, and the flag \<open>in_group4\<close> is set after
  it only if the block is a marker and the flag was set before.
\<close>

theorem earliest_rule_wins:
  "loop_body s blk = spec_step s blk \<and>
   (contains (txt_clean blk) ''description'' \<and> contains (txt_clean blk) ''report parameters'' \<and>
    \<not> contains (txt_clean blk) ''restricted'' \<and>
    \<not> contains (txt_clean blk) ''programme/project status report'' \<longrightarrow>
      spec_first_match spec_keyword_table (txt_clean blk) = Some (ToSection SectionB) \<and>
      group3 (loop_body s blk) = group3 s @ [blk] \<and>
      active_group (loop_body s blk) = Some SectionB \<and>
      group4 (loop_body s blk) = group4 s) \<and>
   (contains (txt_clean blk) ''description'' \<longrightarrow>
      group4 (loop_body s blk) = group4 s \<and>
      in_group4 (loop_body s blk) = (is_marker blk \<and> in_group4 s))"
  by (simp add: loop_body_spec_step [symmetric] loop_body_def spec_keyword_table_def
      active_group_def is_marker_def)

theorem earliest_rule_wins_witness:
  "contains (txt_clean (block_at ''Description of Report Parameters'' 0)) ''description'' \<and>
   contains (txt_clean (block_at ''Description of Report Parameters'' 0)) ''report parameters'' \<and>
   \<not> contains (txt_clean (block_at ''Description of Report Parameters'' 0)) ''restricted'' \<and>
   \<not> contains (txt_clean (block_at ''Description of Report Parameters'' 0))
       ''programme/project status report'' \<and>
   group3 (loop_body init_state (block_at ''Description of Report Parameters'' 0)) =
     group3 init_state @ [block_at ''Description of Report Parameters'' 0] \<and>
   active_group (loop_body init_state (block_at ''Description of Report Parameters'' 0)) =
     Some SectionB \<and>
   group4 (loop_body init_state (block_at ''Description of Report Parameters'' 0)) =
     group4 init_state"
proof -
  let ?b = "block_at ''Description of Report Parameters'' 0"
  have c: "txt_clean ?b = ''description of report parameters''"
    by (simp add: block_at_def string_eval)
  have d: "contains (txt_clean ?b) ''description''"
    unfolding c by simp
  have p: "contains (txt_clean ?b) ''report parameters''"
    unfolding c by simp
  have r: "\<not> contains (txt_clean ?b) ''restricted''"
    unfolding c by simp
  have a: "\<not> contains (txt_clean ?b) ''programme/project status report''"
    unfolding c by simp
  have "group3 (loop_body init_state ?b) = group3 init_state @ [?b] \<and>
      active_group (loop_body init_state ?b) = Some SectionB \<and>
      group4 (loop_body init_state ?b) = group4 init_state"
    using earliest_rule_wins [of init_state ?b] d p r a by blast
  with d p r a show ?thesis by blast
qed

text \<open>
  C8. Whatever came before (so also when the section was seen earlier and another
  section is active now), a heading of section \<open>X\<close> is appended to the bucket of \<open>X\<close>
  and makes \<open>X\<close> the active group; of the blocks that follow up to the next heading, the
  followers are appended to the bucket of \<open>X\<close> in their order and the markers to
  \<open>group1\<close>, and the buckets of the other two sections do not change.
\<close>

theorem heading_reactivates:
  assumes "heading_of h = Some X" and "\<forall>f \<in> set fs. heading_of f = None"
  shows "bucket X (run_loop init_state (pre @ h # fs)) =
           bucket X (run_loop init_state pre) @ h # filter (\<lambda>f. \<not> is_marker f) fs \<and>
         active_group (run_loop init_state (pre @ h # fs)) = Some X \<and>
         group1 (run_loop init_state (pre @ h # fs)) =
           group1 (run_loop init_state pre) @ filter is_marker fs \<and>
         (\<forall>Y. Y \<noteq> X \<longrightarrow>
            bucket Y (run_loop init_state (pre @ h # fs)) = bucket Y (run_loop init_state pre))"
proof -
  define s where "s = run_loop init_state pre"
  define t where "t = loop_body s h"
  have r: "run_loop init_state (pre @ h # fs) = run_loop t fs"
    by (simp add: run_loop_append run_loop_Cons s_def t_def)
  note hd = bucket_heading [OF assms(1), of s, folded t_def]
  have a: "active_group t = Some X" using hd by simp
  note fl = no_heading_run [OF assms(2) a]
  have other: "bucket Y (run_loop t fs) = bucket Y s" if "Y \<noteq> X" for Y
    using no_heading_run_other [OF assms(2) a that] bucket_heading_other [OF assms(1) that, of s]
    by (simp add: t_def)
  show ?thesis
    unfolding r s_def [symmetric] using hd fl other by simp
qed

theorem heading_reactivates_witness:
  "heading_of (block_at ''Programme/Project Status Report'' 50) = Some SectionA \<and>
   heading_of (block_at ''line C'' 60) = None \<and>
   heading_of (block_at ''RESTRICTED'' 70) = None \<and>
   heading_of (block_at ''line D'' 80) = None \<and>
   group2 (run_loop init_state
     ([block_at ''Programme/Project Status Report'' 10, block_at ''line A'' 20,
       block_at ''Description'' 30, block_at ''line B'' 40] @
      block_at ''Programme/Project Status Report'' 50 #
      [block_at ''line C'' 60, block_at ''RESTRICTED'' 70, block_at ''line D'' 80])) =
     [block_at ''Programme/Project Status Report'' 10, block_at ''line A'' 20,
      block_at ''Programme/Project Status Report'' 50, block_at ''line C'' 60,
      block_at ''line D'' 80] \<and>
   group3 (run_loop init_state
     ([block_at ''Programme/Project Status Report'' 10, block_at ''line A'' 20,
       block_at ''Description'' 30, block_at ''line B'' 40] @
      block_at ''Programme/Project Status Report'' 50 #
      [block_at ''line C'' 60, block_at ''RESTRICTED'' 70, block_at ''line D'' 80])) =
     [block_at ''Description'' 30, block_at ''line B'' 40]"
proof -
  let ?a = "block_at ''Programme/Project Status Report'' 10"
  let ?la = "block_at ''line A'' 20"
  let ?d = "block_at ''Description'' 30"
  let ?lb = "block_at ''line B'' 40"
  let ?h = "block_at ''Programme/Project Status Report'' 50"
  let ?lc = "block_at ''line C'' 60"
  let ?r = "block_at ''RESTRICTED'' 70"
  let ?ld = "block_at ''line D'' 80"
  have h: "heading_of ?h = Some SectionA"
    by (simp add: heading_of_def block_at_def string_eval)
  have f1: "heading_of ?lc = None"
    by (simp add: heading_of_def block_at_def string_eval)
  have f2: "heading_of ?r = None"
    by (simp add: heading_of_def block_at_def string_eval)
  have f3: "heading_of ?ld = None"
    by (simp add: heading_of_def block_at_def string_eval)
  have m1: "\<not> is_marker ?lc"
    by (simp add: is_marker_def block_at_def string_eval)
  have m2: "is_marker ?r"
    by (simp add: is_marker_def block_at_def string_eval)
  have m3: "\<not> is_marker ?ld"
    by (simp add: is_marker_def block_at_def string_eval)
  have fs: "\<forall>f \<in> set [?lc, ?r, ?ld]. heading_of f = None"
    using f1 f2 f3 by simp
  have flt: "filter (\<lambda>f. \<not> is_marker f) [?lc, ?r, ?ld] = [?lc, ?ld]"
    using m1 m2 m3 by simp
  have ha: "heading_of ?a = Some SectionA"
    by (simp add: heading_of_def block_at_def string_eval)
  have hd: "heading_of ?d = Some SectionB"
    by (simp add: heading_of_def block_at_def string_eval)
  have fa: "is_follower ?la"
    by (simp add: is_follower_def block_at_def string_eval)
  have fb: "is_follower ?lb"
    by (simp add: is_follower_def block_at_def string_eval)
  have s1: "loop_body init_state ?a = init_state\<lparr>in_group2 := True, group2 := [?a]\<rparr>"
    by (simp add: loop_body_heading [OF ha] init_state_def)
  have s2: "loop_body (init_state\<lparr>in_group2 := True, group2 := [?a]\<rparr>) ?la =
      init_state\<lparr>in_group2 := True, group2 := [?a, ?la]\<rparr>"
    by (simp add: loop_body_follower [OF fa] init_state_def)
  have s3: "loop_body (init_state\<lparr>in_group2 := True, group2 := [?a, ?la]\<rparr>) ?d =
      init_state\<lparr>in_group3 := True, group2 := [?a, ?la], group3 := [?d]\<rparr>"
    by (simp add: loop_body_heading [OF hd] init_state_def)
  have s4: "loop_body (init_state\<lparr>in_group3 := True, group2 := [?a, ?la], group3 := [?d]\<rparr>) ?lb =
      init_state\<lparr>in_group3 := True, group2 := [?a, ?la], group3 := [?d, ?lb]\<rparr>"
    by (simp add: loop_body_follower [OF fb] init_state_def)
  have pre: "run_loop init_state [?a, ?la, ?d, ?lb] =
      init_state\<lparr>in_group3 := True, group2 := [?a, ?la], group3 := [?d, ?lb]\<rparr>"
    by (simp only: run_loop_Cons run_loop_Nil s1 s2 s3 s4)
  have p2: "bucket SectionA (run_loop init_state [?a, ?la, ?d, ?lb]) = [?a, ?la]"
    unfolding pre by simp
  have p3: "bucket SectionB (run_loop init_state [?a, ?la, ?d, ?lb]) = [?d, ?lb]"
    unfolding pre by simp
  note inst = heading_reactivates [OF h fs, of "[?a, ?la, ?d, ?lb]"]
  have "bucket SectionA (run_loop init_state ([?a, ?la, ?d, ?lb] @ ?h # [?lc, ?r, ?ld])) =
      bucket SectionA (run_loop init_state [?a, ?la, ?d, ?lb]) @
        ?h # filter (\<lambda>f. \<not> is_marker f) [?lc, ?r, ?ld]"
    using inst by (elim conjE)
  then have g2: "group2 (run_loop init_state ([?a, ?la, ?d, ?lb] @ ?h # [?lc, ?r, ?ld])) =
      [?a, ?la, ?h, ?lc, ?ld]"
    unfolding p2 flt by simp
  have oth: "\<forall>Y. Y \<noteq> SectionA \<longrightarrow>
      bucket Y (run_loop init_state ([?a, ?la, ?d, ?lb] @ ?h # [?lc, ?r, ?ld])) =
      bucket Y (run_loop init_state [?a, ?la, ?d, ?lb])"
    using inst by (elim conjE)
  have "bucket SectionB (run_loop init_state ([?a, ?la, ?d, ?lb] @ ?h # [?lc, ?r, ?ld])) =
      bucket SectionB (run_loop init_state [?a, ?la, ?d, ?lb])"
    using oth [rule_format, of SectionB] by simp
  then have g3: "group3 (run_loop init_state ([?a, ?la, ?d, ?lb] @ ?h # [?lc, ?r, ?ld])) =
      [?d, ?lb]"
    unfolding p3 by simp
  from h f1 f2 f3 g2 g3 show ?thesis
    by (intro conjI)
qed

text \<open>
  C10. After every number of iterations of the pass, started with all flags cleared, at
  most one of \<open>in_group2\<close>, \<open>in_group3\<close>, \<open>in_group4\<close> is set. One iteration on a heading
  sets the flag of its section and clears the other two; one iteration on any other
  block (a marker or a follower) leaves the three flags as they were.
\<close>

theorem at_most_one_flag:
  "at_most_one_active (run_loop init_state (take n blocks)) \<and>
   (in_group2 (loop_body s blk), in_group3 (loop_body s blk), in_group4 (loop_body s blk)) =
     (case heading_of blk of
        Some SectionA \<Rightarrow> (True, False, False)
      | Some SectionB \<Rightarrow> (False, True, False)
      | Some SectionC \<Rightarrow> (False, False, True)
      | None \<Rightarrow> (in_group2 s, in_group3 s, in_group4 s))"
proof
  have "at_most_one_active init_state"
    by (simp add: at_most_one_active_def init_state_def)
  then show "at_most_one_active (run_loop init_state (take n blocks))"
    by (rule at_most_one_run_loop)
next
  show "(in_group2 (loop_body s blk), in_group3 (loop_body s blk), in_group4 (loop_body s blk)) =
     (case heading_of blk of
        Some SectionA \<Rightarrow> (True, False, False)
      | Some SectionB \<Rightarrow> (False, True, False)
      | Some SectionC \<Rightarrow> (False, False, True)
      | None \<Rightarrow> (in_group2 s, in_group3 s, in_group4 s))"
    by (rule flags_loop_body)
qed

section \<open>The sequencer\<close>




text \<open>
  C5, as the code has it. The sort is stable on lists without NaN coordinates: for every
  list of blocks none of whose tops and lefts is a NaN, and every pair of coordinates
  (top \<open>t\<close>, left \<open>l\<close>), the blocks with exactly these coordinates stand in the sorted
  list in the same relative order as in the input.
\<close>

theorem sort_blocks_stable:
  assumes "\<forall>b\<in>set blocks. y0 b \<noteq> NaN \<and> x0 b \<noteq> NaN"
  shows "filter (\<lambda>blk. y0 blk = t \<and> x0 blk = l) (sort_blocks blocks) =
         filter (\<lambda>blk. y0 blk = t \<and> x0 blk = l) blocks"
proof -
  define f where "f = (\<lambda>blk :: TextBlock. (float_rank (y0 blk), float_rank (x0 blk)))"
  have inj: "float_rank a = float_rank b \<longleftrightarrow> a = b" if "a \<noteq> NaN" "b \<noteq> NaN" for a b
    using that by (cases a; cases b) simp_all
  have s: "sort_blocks blocks = sort_key f blocks"
    unfolding f_def by (rule sort_blocks_sort_key [OF assms])
  have st: "set (sort_blocks blocks) = set blocks"
    unfolding s by simp
  show ?thesis
  proof (cases "t = NaN \<or> l = NaN")
    case True
    have "filter (\<lambda>blk. y0 blk = t \<and> x0 blk = l) blocks = []"
      using assms True by (auto simp add: filter_empty_conv)
    moreover have "filter (\<lambda>blk. y0 blk = t \<and> x0 blk = l) (sort_blocks blocks) = []"
      using assms True st by (auto simp add: filter_empty_conv)
    ultimately show ?thesis by simp
  next
    case False
    have e: "(y0 blk = t \<and> x0 blk = l) = (f blk = (float_rank t, float_rank l))"
      if "blk \<in> set blocks" for blk
      using that assms False inj [of "y0 blk" t] inj [of "x0 blk" l] by (auto simp add: f_def)
    have "filter (\<lambda>blk. y0 blk = t \<and> x0 blk = l) (sort_blocks blocks) =
        filter (\<lambda>blk. f blk = (float_rank t, float_rank l)) (sort_blocks blocks)"
      by (rule filter_cong) (use e st in auto)
    also have "\<dots> = filter (\<lambda>blk. f blk = (float_rank t, float_rank l)) blocks"
      unfolding s by (rule sort_key_stable)
    also have "\<dots> = filter (\<lambda>blk. y0 blk = t \<and> x0 blk = l) blocks"
      by (rule filter_cong) (use e in auto)
    finally show ?thesis .
  qed
qed

theorem sort_blocks_stable_witness:
  "y0 (block_at ''second'' 30) \<noteq> NaN \<and> x0 (block_at ''second'' 30) \<noteq> NaN \<and>
   y0 (block_at ''first'' 10) \<noteq> NaN \<and> x0 (block_at ''first'' 10) \<noteq> NaN \<and>
   y0 (block_at ''third'' 10) \<noteq> NaN \<and> x0 (block_at ''third'' 10) \<noteq> NaN \<and>
   filter (\<lambda>blk. y0 blk = Float 10 \<and> x0 blk = Float 0)
     (sort_blocks [block_at ''second'' 30, block_at ''first'' 10, block_at ''third'' 10]) =
   [block_at ''first'' 10, block_at ''third'' 10]"
proof -
  let ?ex = "[block_at ''second'' 30, block_at ''first'' 10, block_at ''third'' 10]"
  have n: "y0 (block_at ''second'' 30) \<noteq> NaN \<and> x0 (block_at ''second'' 30) \<noteq> NaN \<and>
      y0 (block_at ''first'' 10) \<noteq> NaN \<and> x0 (block_at ''first'' 10) \<noteq> NaN \<and>
      y0 (block_at ''third'' 10) \<noteq> NaN \<and> x0 (block_at ''third'' 10) \<noteq> NaN"
    by (simp add: block_at_def)
  have a: "\<forall>b\<in>set ?ex. y0 b \<noteq> NaN \<and> x0 b \<noteq> NaN"
    using n by simp
  have "filter (\<lambda>blk. y0 blk = Float 10 \<and> x0 blk = Float 0) ?ex =
      [block_at ''first'' 10, block_at ''third'' 10]"
    by (simp add: block_at_def)
  then have "filter (\<lambda>blk. y0 blk = Float 10 \<and> x0 blk = Float 0) (sort_blocks ?ex) =
      [block_at ''first'' 10, block_at ''third'' 10]"
    using sort_blocks_stable [OF a, of "Float 10" "Float 0"] by simp
  with n show ?thesis by blast
qed

text \<open>
  The statement for every input list does not hold: with NaN tops in the list, the two
  blocks \<open>t1\<close> and \<open>t2\<close>, both with top 1 and left 0 and given in this order, come out with
  \<open>t2\<close> before \<open>t1\<close>.
\<close>

theorem sort_blocks_stable_counterexample:
  "sort_blocks [block_nan ''n1'', block_nan ''n2'', block_at ''two'' 2, block_at ''one'' 1,
       block_nan ''n3'', block_at ''t1'' 1, block_at ''t2'' 1] =
     [block_nan ''n1'', block_nan ''n2'', block_at ''one'' 1, block_at ''t2'' 1,
      block_at ''two'' 2, block_nan ''n3'', block_at ''t1'' 1] \<and>
   y0 (block_at ''t1'' 1) = y0 (block_at ''t2'' 1) \<and>
   x0 (block_at ''t1'' 1) = x0 (block_at ''t2'' 1)"
proof -
  let ?lt = "\<lambda>a b. tuple_lt (key a) (key b)"
  let ?n1 = "block_nan ''n1''" and ?n2 = "block_nan ''n2''" and ?n3 = "block_nan ''n3''"
  let ?two = "block_at ''two'' 2" and ?one = "block_at ''one'' 1"
  let ?t1 = "block_at ''t1'' 1" and ?t2 = "block_at ''t2'' 1"
  have k: "key (block_nan t) = (NaN, Float 0)" "key (block_at t y) = (Float y, Float 0)" for t y
    by (simp_all add: key_def block_nan_def block_at_def)
  have run: "count_run ?lt [?n1, ?n2, ?two, ?one, ?n3, ?t1, ?t2] = (3, False)"
    by (simp add: k tuple_lt_def)
  have s0: "list_sort ?lt [?n1, ?n2, ?two, ?one, ?n3, ?t1, ?t2] =
      binarysort ?lt [?n1, ?n2, ?two] [?one, ?n3, ?t1, ?t2]"
    by (simp only: list_sort_def run, simp)
  have j1: "bisect ?lt [?n1, ?n2, ?two] ?one 0 (length [?n1, ?n2, ?two]) = 2"
    by (simp add: bisect_eval k tuple_lt_def)
  have s1: "binarysort ?lt [?n1, ?n2, ?two] [?one, ?n3, ?t1, ?t2] =
      binarysort ?lt [?n1, ?n2, ?one, ?two] [?n3, ?t1, ?t2]"
    by (subst binarysort_Cons, simp only: j1, simp)
  have j2: "bisect ?lt [?n1, ?n2, ?one, ?two] ?n3 0 (length [?n1, ?n2, ?one, ?two]) = 4"
    by (simp add: bisect_eval k tuple_lt_def)
  have s2: "binarysort ?lt [?n1, ?n2, ?one, ?two] [?n3, ?t1, ?t2] =
      binarysort ?lt [?n1, ?n2, ?one, ?two, ?n3] [?t1, ?t2]"
    by (subst binarysort_Cons, simp only: j2, simp)
  have j3: "bisect ?lt [?n1, ?n2, ?one, ?two, ?n3] ?t1 0
      (length [?n1, ?n2, ?one, ?two, ?n3]) = 5"
    by (simp add: bisect_eval k tuple_lt_def)
  have s3: "binarysort ?lt [?n1, ?n2, ?one, ?two, ?n3] [?t1, ?t2] =
      binarysort ?lt [?n1, ?n2, ?one, ?two, ?n3, ?t1] [?t2]"
    by (subst binarysort_Cons, simp only: j3, simp)
  have j4: "bisect ?lt [?n1, ?n2, ?one, ?two, ?n3, ?t1] ?t2 0
      (length [?n1, ?n2, ?one, ?two, ?n3, ?t1]) = 3"
    by (simp add: bisect_eval k tuple_lt_def)
  have s4: "binarysort ?lt [?n1, ?n2, ?one, ?two, ?n3, ?t1] [?t2] =
      binarysort ?lt [?n1, ?n2, ?one, ?t2, ?two, ?n3, ?t1] []"
    by (subst binarysort_Cons, simp only: j4, simp)
  have "sort_blocks [?n1, ?n2, ?two, ?one, ?n3, ?t1, ?t2] =
      [?n1, ?n2, ?one, ?t2, ?two, ?n3, ?t1]"
    unfolding sort_blocks_def s0 s1 s2 s3 s4 by (rule binarysort_Nil)
  moreover have "y0 ?t1 = y0 ?t2 \<and> x0 ?t1 = x0 ?t2"
    by (simp add: block_at_def)
  ultimately show ?thesis by (rule conjI)
qed


section \<open>The supplier\<close>

text \<open>
  C9. On the document of one page that holds one block, given as PyMuPDF gives it (a
  tuple of seven fields), the page index 0 is within the page range, and
  \<open>extract_text_blocks\<close> does not return the block: the unpacking into six names raises.
\<close>

theorem extract_text_blocks_unpack_error:
  "extract_text_blocks one_block_document 0 = Inl UnpackValueError \<and>
   (0 :: int) < int (page_count one_block_document)"
  by (simp add: extract_text_blocks_def one_block_document_def)

end
